theory Spec2Isabelle
  imports Main "HOL-Library.Sublist"
begin

section \<open>Files, errors\<close>

text \<open>
  A file is the list of its bytes. An Isabelle \<open>char\<close> is one byte, so the same list is
  also the text Python obtains by decoding the bytes as latin-1 (one character per byte).
  A file system maps a path to the content of the file, if the file exists.
  The exceptions are the built-in ones the source can raise. \<open>FormatError\<close> is the
  exception the specification names; no statement of \<open>srim/output.py\<close> raises it.
\<close>

type_synonym bytes = string
type_synonym filesystem = "string \<rightharpoonup> bytes"

datatype error =
    FileNotFoundError
  | IndexError
  | ValueError
  | AttributeError
  | AssertionError
  | StopIteration
  | FormatError

section \<open>The chunked pattern locator\<close>

subsection \<open>\<open>re.finditer\<close> for a pattern of ordinary and escaped bytes\<close>

text \<open>
  The argument \<open>string\<close> of \<open>buffered_findall\<close> is handed to \<open>re.finditer\<close> as
  a regular expression. The model covers the patterns built from ordinary bytes and from
  a backslash followed by a byte that is neither a letter nor a digit (what \<open>re.escape\<close>
  produces): such a pattern matches one fixed byte string, \<open>pattern_literal\<close>. A
  \<open>plain\<close> pattern has no metacharacter at all and matches itself; the marker of the
  store is plain.
\<close>

definition is_meta :: "char \<Rightarrow> bool" where
  "is_meta c \<longleftrightarrow> c \<in> set (CHR 0x5C # ''.^$*+?{}[]|()'')"

definition is_alnum :: "char \<Rightarrow> bool" where
  "is_alnum c \<longleftrightarrow>
     c \<in> set ''0123456789abcdefghijklmnopqrstuvwxyzABCDEFGHIJKLMNOPQRSTUVWXYZ''"

definition plain :: "bytes \<Rightarrow> bool" where
  "plain string = list_all (\<lambda>c. \<not> is_meta c) string"

fun simple_from :: "bool \<Rightarrow> bytes \<Rightarrow> bool" where
  "simple_from escaped [] = (\<not> escaped)"
| "simple_from escaped (c # cs) =
     (if escaped then \<not> is_alnum c \<and> simple_from False cs
      else if c = CHR 0x5C then simple_from True cs
      else \<not> is_meta c \<and> simple_from False cs)"

definition simple_pattern :: "bytes \<Rightarrow> bool" where
  "simple_pattern string = simple_from False string"

fun unescape :: "bool \<Rightarrow> bytes \<Rightarrow> bytes" where
  "unescape escaped [] = []"
| "unescape escaped (c # cs) =
     (if escaped then c # unescape False cs
      else if c = CHR 0x5C then unescape True cs
      else c # unescape False cs)"

definition pattern_literal :: "bytes \<Rightarrow> bytes" where
  "pattern_literal string = unescape False string"

text \<open>
  The scan for a fixed byte string goes from left to right; a match at \<open>i\<close> is reported
  and the scan resumes behind the match, so that the reported matches do not overlap. The
  empty string matches at every position, the end of the buffer included. \<open>skip\<close>
  counts the bytes of the last match still to pass over and \<open>i\<close> is the position of the
  head of the remaining buffer.
\<close>

fun finditer :: "bytes \<Rightarrow> nat \<Rightarrow> nat \<Rightarrow> bytes \<Rightarrow> nat list" where
  "finditer lit skip i [] = (if skip = 0 \<and> lit = [] then [i] else [])"
| "finditer lit skip i (c # cs) =
     (if 0 < skip then finditer lit (skip - 1) (Suc i) cs
      else if prefix lit (c # cs) then i # finditer lit (length lit - 1) (Suc i) cs
      else finditer lit 0 (Suc i) cs)"

text \<open>\<open>[m.start() for m in re.finditer(string, buffer)]\<close>\<close>

definition match_starts :: "bytes \<Rightarrow> bytes \<Rightarrow> nat list" where
  "match_starts string buffer = finditer (pattern_literal string) 0 0 buffer"

subsection \<open>\<open>buffered_findall\<close>\<close>

definition BUFFERSIZE :: nat where
  "BUFFERSIZE = 4096"

text \<open>
  The state of the \<open>while True\<close> loop is the cursor of the file object (\<open>f.tell()\<close>) and
  the list \<open>positions\<close>. One pass of the loop body either goes on with a new state
  (\<open>Inl\<close>) or returns the positions (\<open>Inr\<close>). \<open>f.read(n)\<close> at cursor \<open>p\<close> gives
  \<open>take n (drop p file)\<close>, which is empty at and beyond the end of the file, and moves the
  cursor by the number of bytes read. The window size is a parameter of the loop;
  \<open>buffered_findall\<close> fixes it to \<open>BUFFERSIZE\<close>. \<open>overlap\<close> is the length of the
  pattern text minus one. \<open>m.start()\<close> is never negative, so the test
  \<open>position >= 0\<close> of the source keeps every match.
\<close>

definition overlap_of :: "bytes \<Rightarrow> int" where
  "overlap_of string = int (length string) - 1"

definition seek_back :: "bytes \<Rightarrow> bytes \<Rightarrow> nat \<Rightarrow> nat" where
  "seek_back file string p =
     (if overlap_of string \<le> int p \<and> p < length file then nat (int p - overlap_of string) else p)"

definition loop_body :: "bytes \<Rightarrow> bytes \<Rightarrow> nat \<Rightarrow> nat \<times> nat list \<Rightarrow> (nat \<times> nat list) + nat list" where
  "loop_body file string bufsize st =
     (case st of (p, positions) \<Rightarrow>
        let p1 = seek_back file string p;
            buffer = take bufsize (drop p1 file);
            p2 = p1 + length buffer
        in if buffer \<noteq> []
           then Inl (p2, positions @ map (\<lambda>position. p2 - length buffer + position)
                                       (filter (\<lambda>position. 0 \<le> position) (match_starts string buffer)))
           else Inr positions)"

partial_function (option) scan_loop :: "bytes \<Rightarrow> bytes \<Rightarrow> nat \<Rightarrow> nat \<times> nat list \<Rightarrow> nat list option" where
  "scan_loop file string bufsize st =
     (case loop_body file string bufsize st of
        Inr positions \<Rightarrow> Some positions
      | Inl st' \<Rightarrow> scan_loop file string bufsize st')"

text \<open>
  The same loop with a bound on the number of passes: \<open>None\<close> when the bound is reached
  before the loop returns. It serves to count the passes of the loop.
\<close>

fun scan_passes :: "nat \<Rightarrow> bytes \<Rightarrow> bytes \<Rightarrow> nat \<Rightarrow> nat \<times> nat list \<Rightarrow> nat list option" where
  "scan_passes 0 file string bufsize st = None"
| "scan_passes (Suc n) file string bufsize st =
     (case loop_body file string bufsize st of
        Inr positions \<Rightarrow> Some positions
      | Inl st' \<Rightarrow> scan_passes n file string bufsize st')"

text \<open>
  \<open>buffered_findall(filename, string, start=0)\<close>. Opening a missing file raises; a start
  offset that is not positive leaves the cursor at 0. The outer \<open>option\<close> is \<open>None\<close> when
  the loop never returns.
\<close>

definition start_cursor :: "int \<Rightarrow> nat" where
  "start_cursor start = (if 0 < start then nat start else 0)"

definition buffered_findall :: "filesystem \<Rightarrow> string \<Rightarrow> bytes \<Rightarrow> int \<Rightarrow> (error + nat list) option" where
  "buffered_findall fs filename string start =
     (case fs filename of
        None \<Rightarrow> Some (Inl FileNotFoundError)
      | Some file \<Rightarrow>
          map_option Inr (scan_loop file string BUFFERSIZE (start_cursor start, [])))"

text \<open>
  A bound on the number of passes of the loop from cursor \<open>p\<close> in a file of \<open>fs\<close>
  bytes, when every pass but the first advances the window by \<open>d\<close> bytes.
\<close>

definition pass_bound :: "nat \<Rightarrow> nat \<Rightarrow> nat \<Rightarrow> nat" where
  "pass_bound d fs p = (fs - p + d - 1) div d + 1"

text \<open>
  The occurrences of a byte string in a file, found by looking at every offset of the whole
  file, as the specification counts them; and the condition that no two of them overlap.
\<close>

definition occurs_at :: "bytes \<Rightarrow> bytes \<Rightarrow> nat \<Rightarrow> bool" where
  "occurs_at lit file i = prefix lit (drop i file)"

definition occurrences :: "bytes \<Rightarrow> bytes \<Rightarrow> nat list" where
  "occurrences lit file = filter (occurs_at lit file) [0..<Suc (length file)]"

definition no_overlap :: "bytes \<Rightarrow> bytes \<Rightarrow> bool" where
  "no_overlap lit file =
     list_all (\<lambda>i. list_all (\<lambda>j. i < j \<longrightarrow> i + length lit \<le> j) (occurrences lit file))
              (occurrences lit file)"

section \<open>The collision record store and its parser\<close>

subsection \<open>Python operations used by the parser\<close>

text \<open>
  A computation that may raise returns \<open>error + 'a\<close>; \<open>attempt\<close> chains two of
  them, and the first exception ends the computation. \<open>py_index\<close> is \<open>xs[i]\<close> (a
  negative index counts from the end), \<open>drop_outer\<close> is the slice \<open>xs[1:-1]\<close>,
  \<open>split_on\<close> is \<open>s.split(sep)\<close> for a separator of one character, and
  \<open>py_split\<close> is \<open>s.split()\<close>. \<open>is_space\<close> holds of the latin-1 characters
  that Python counts as whitespace; the digits matched by \<open>\\d\<close> are the ten ASCII
  digits, since latin-1 has no other decimal digit.
\<close>

definition attempt :: "error + 'a \<Rightarrow> ('a \<Rightarrow> error + 'b) \<Rightarrow> error + 'b" where
  "attempt r k = (case r of Inl e \<Rightarrow> Inl e | Inr v \<Rightarrow> k v)"

definition py_index :: "'a list \<Rightarrow> int \<Rightarrow> error + 'a" where
  "py_index xs i =
     (if 0 \<le> i \<and> i < int (length xs) then Inr (xs ! nat i)
      else if i < 0 \<and> - int (length xs) \<le> i then Inr (xs ! nat (int (length xs) + i))
      else Inl IndexError)"

definition drop_outer :: "'a list \<Rightarrow> 'a list" where
  "drop_outer xs = butlast (tl xs)"

fun split_on :: "char \<Rightarrow> string \<Rightarrow> string list" where
  "split_on sep [] = [[]]"
| "split_on sep (c # cs) =
     (let r = split_on sep cs
      in if c = sep then [] # r else (c # hd r) # tl r)"

definition is_space :: "char \<Rightarrow> bool" where
  "is_space c \<longleftrightarrow> c \<in> set [CHR 0x09, CHR 0x0A, CHR 0x0B, CHR 0x0C, CHR 0x0D, CHR 0x1C, CHR 0x1D,
                             CHR 0x1E, CHR 0x1F, CHR 0x20, CHR 0x85, CHR 0xA0]"

definition is_digit :: "char \<Rightarrow> bool" where
  "is_digit c \<longleftrightarrow> c \<in> set ''0123456789''"

definition is_upper :: "char \<Rightarrow> bool" where
  "is_upper c \<longleftrightarrow> c \<in> set ''ABCDEFGHIJKLMNOPQRSTUVWXYZ''"

definition is_lower :: "char \<Rightarrow> bool" where
  "is_lower c \<longleftrightarrow> c \<in> set ''abcdefghijklmnopqrstuvwxyz''"

fun split_ws :: "string \<Rightarrow> string \<Rightarrow> string list" where
  "split_ws cur [] = (if cur = [] then [] else [cur])"
| "split_ws cur (c # cs) =
     (if is_space c then (if cur = [] then split_ws [] cs else cur # split_ws [] cs)
      else split_ws (cur @ [c]) cs)"

definition py_split :: "string \<Rightarrow> string list" where
  "py_split s = split_ws [] s"

text \<open>
  The values of a record. The conversions \<open>float\<close> and \<open>int\<close> of Python are
  parameters of the parser (\<open>pfloat\<close>, \<open>pint\<close>): each gives \<open>None\<close> where
  Python raises \<open>ValueError\<close>. The type \<open>'f\<close> stands for Python's floats. The
  counts of an event are the integer 0 or a float.
\<close>

record 'f recoil =
  recoil :: int
  atom :: int
  recoil_energy :: 'f
  position :: "'f \<times> 'f \<times> 'f"
  vac :: int
  repl :: int

datatype 'f number = IntVal int | FloatVal 'f

record 'f event =
  ion_number :: int
  kinetic_energy :: 'f
  depth :: 'f
  lat_y_dist :: 'f
  lat_z_dist :: 'f
  stopping_energy :: 'f
  atom :: string
  recoil_energy :: 'f
  target_disp :: "'f number"
  target_vac :: "'f number"
  target_replac :: "'f number"
  target_inter :: "'f number"
  cascade :: "'f recoil list option"


record 'f ion =
  ion_number :: int
  displacements :: 'f
  avg_displacements :: 'f
  replacements :: 'f
  avg_replacements :: 'f
  vacancies :: 'f
  avg_vacancies :: 'f
  interstitials :: 'f
  avg_interstitials :: 'f
  sputtered_atoms :: 'f
  avg_sputtered_atoms :: 'f
  transmitted_atoms :: 'f
  avg_transmitted_atoms :: 'f
  collisions :: "'f event list"

subsection \<open>The regular expressions of the parser\<close>

text \<open>
  \<open>is_rule c\<close> is \<open>re.match("^c+\\r$", line)\<close> on a line without line feed.
  \<open>cascade_start\<close> is \<open>re.match(r"\\s+<== Start of New Cascade\\s+", token)\<close>: the
  phrase begins with a character that is no whitespace, so the first \<open>\\s+\<close> takes all
  the leading whitespace. \<open>cascade_header\<close> is the match of the header line of a
  cascade table, \<open>search_symbol\<close> is \<open>re.search("([A-Z][a-z])", s).group(1)\<close>,
  \<open>search_int\<close> is \<open>re.search(int_regex, s).group(0)\<close> and \<open>findall_double\<close> is
  \<open>re.findall(double_regex, s)\<close>; in the last three \<open>None\<close> or a missing element
  stands for no match.
\<close>

definition is_rule :: "char \<Rightarrow> string \<Rightarrow> bool" where
  "is_rule c line \<longleftrightarrow> 2 \<le> length line \<and> line = replicate (length line - 1) c @ [CHR 0x0D]"

definition cascade_start :: "string \<Rightarrow> bool" where
  "cascade_start tok =
     (let rest = dropWhile is_space tok
      in rest \<noteq> tok \<and> prefix ''<== Start of New Cascade'' rest \<and>
         (case drop 24 rest of [] \<Rightarrow> False | c # _ \<Rightarrow> is_space c))"

definition cascade_header :: "string \<Rightarrow> bool" where
  "cascade_header line =
     (let lit = ''  Recoil Atom Energy(eV)   X (A)      Y (A)      Z (A)   Vac Repl Ion Numb '';
          rest = drop (length lit) line
      in prefix lit line \<and> takeWhile is_digit rest \<noteq> [] \<and>
         (case dropWhile is_digit rest of [] \<Rightarrow> False | c # _ \<Rightarrow> c = CHR ''=''))"

fun search_symbol :: "string \<Rightarrow> string option" where
  "search_symbol (a # b # cs) =
     (if is_upper a \<and> is_lower b then Some [a, b] else search_symbol (b # cs))"
| "search_symbol cs = None"

fun search_int :: "string \<Rightarrow> string option" where
  "search_int [] = None"
| "search_int (c # cs) =
     (if is_digit c then Some (c # takeWhile is_digit cs)
      else if (c = CHR ''+'' \<or> c = CHR ''-'') \<and> takeWhile is_digit cs \<noteq> []
           then Some (c # takeWhile is_digit cs)
      else search_int cs)"

definition is_sign :: "char \<Rightarrow> bool" where
  "is_sign c \<longleftrightarrow> c = CHR ''-'' \<or> c = CHR ''+''"

definition match_exponent :: "string \<Rightarrow> nat" where
  "match_exponent s =
     (case s of
        [] \<Rightarrow> 0
      | e # r \<Rightarrow>
          if e = CHR ''e'' \<or> e = CHR ''E''
          then (let sg = (case r of [] \<Rightarrow> 0 | c # _ \<Rightarrow> if is_sign c then 1 else 0);
                    ds = length (takeWhile is_digit (drop sg r))
                in if ds = 0 then 0 else 1 + sg + ds)
          else 0)"

definition match_double :: "string \<Rightarrow> nat option" where
  "match_double s =
     (let sg = (case s of [] \<Rightarrow> 0 | c # _ \<Rightarrow> if is_sign c then 1 else 0);
          d1 = length (takeWhile is_digit (drop sg s));
          r = drop (sg + d1) s;
          d2 = length (takeWhile is_digit (drop 1 r))
      in if d1 = 0 \<or> r = [] \<or> hd r \<noteq> CHR ''.'' \<or> d2 = 0 then None
         else Some (sg + d1 + 1 + d2 + match_exponent (drop (1 + d2) r)))"

fun findall_from :: "nat \<Rightarrow> string \<Rightarrow> string list" where
  "findall_from skip [] = []"
| "findall_from skip (c # cs) =
     (if 0 < skip then findall_from (skip - 1) cs
      else case match_double (c # cs) of
             None \<Rightarrow> findall_from 0 cs
           | Some n \<Rightarrow> take n (c # cs) # findall_from (n - 1) cs)"

definition findall_double :: "string \<Rightarrow> string list" where
  "findall_double s = findall_from 0 s"

subsection \<open>\<open>_read_cascade\<close> and \<open>_read_ion\<close>\<close>

text \<open>
  The generator \<open>lines\<close> is the list of the lines not yet consumed; every function
  that draws from it returns the lines that remain. \<open>token tokens k\<close> is
  \<open>tokens[k]\<close> for a literal \<open>k\<close> that is not negative, \<open>field f tokens k\<close> is
  \<open>f(tokens[k])\<close>, and \<open>next_line\<close> is \<open>next(lines)\<close>. The two \<open>assert\<close>
  statements of \<open>_read_cascade\<close> raise \<open>AssertionError\<close>.
\<close>

type_synonym 'f to_float = "string \<Rightarrow> 'f option"
type_synonym to_int = "string \<Rightarrow> int option"

definition convert :: "(string \<Rightarrow> 'a option) \<Rightarrow> string \<Rightarrow> error + 'a" where
  "convert f s = (case f s of None \<Rightarrow> Inl ValueError | Some v \<Rightarrow> Inr v)"

definition token :: "string list \<Rightarrow> nat \<Rightarrow> error + string" where
  "token tokens k = (if k < length tokens then Inr (tokens ! k) else Inl IndexError)"

definition field :: "(string \<Rightarrow> 'a option) \<Rightarrow> string list \<Rightarrow> nat \<Rightarrow> error + 'a" where
  "field f tokens k = attempt (token tokens k) (convert f)"

definition next_line :: "string list \<Rightarrow> error + string \<times> string list" where
  "next_line lines = (case lines of [] \<Rightarrow> Inl StopIteration | line # rest \<Rightarrow> Inr (line, rest))"

definition skip_past_rule :: "char \<Rightarrow> string list \<Rightarrow> string list" where
  "skip_past_rule c lines = drop 1 (dropWhile (\<lambda>line. \<not> is_rule c line) lines)"

fun read_recoils ::
  "'f to_float \<Rightarrow> to_int \<Rightarrow> string list \<Rightarrow> 'f recoil list \<Rightarrow> error + 'f recoil list \<times> string list"
where
  "read_recoils pfloat pint [] entries = Inr (entries, [])"
| "read_recoils pfloat pint (line # lines) entries =
     (if is_rule (CHR ''='') line then Inr (entries, lines)
      else let tokens = drop_outer (py_split line) in
        attempt (field pint tokens 0) (\<lambda>v0.
        attempt (field pint tokens 1) (\<lambda>v1.
        attempt (field pfloat tokens 2) (\<lambda>v2.
        attempt (field pfloat tokens 3) (\<lambda>v3.
        attempt (field pfloat tokens 4) (\<lambda>v4.
        attempt (field pfloat tokens 5) (\<lambda>v5.
        attempt (field pint tokens 6) (\<lambda>v6.
        attempt (field pint tokens 7) (\<lambda>v7.
        read_recoils pfloat pint lines
          (entries @ [\<lparr>recoil = v0, atom = v1, recoil_energy = v2, position = (v3, v4, v5),
                        vac = v6, repl = v7\<rparr>]))))))))))"

definition read_cascade ::
  "'f to_float \<Rightarrow> to_int \<Rightarrow> string list \<Rightarrow>
   error + ('f \<times> 'f \<times> 'f \<times> 'f \<times> 'f recoil list) \<times> string list"
where
  "read_cascade pfloat pint lines =
     attempt (next_line lines) (\<lambda>(line, lines).
     if \<not> is_rule (CHR ''='') line then Inl AssertionError else
     attempt (next_line lines) (\<lambda>(line, lines).
     if \<not> cascade_header line then Inl AssertionError else
     attempt (read_recoils pfloat pint lines []) (\<lambda>(cascade, lines).
     attempt (next_line lines) (\<lambda>(line, lines).
     let tokens = drop_outer (split_on (CHR 0xB3) line) in
     attempt (field pfloat tokens 2) (\<lambda>target_disp.
     attempt (field pfloat tokens 3) (\<lambda>target_vac.
     attempt (field pfloat tokens 4) (\<lambda>target_replac.
     attempt (field pfloat tokens 5) (\<lambda>target_inter.
     Inr ((target_disp, target_vac, target_replac, target_inter, cascade), lines)))))))))"

definition read_collision ::
  "'f to_float \<Rightarrow> to_int \<Rightarrow> string \<Rightarrow> string list \<Rightarrow> error + 'f event \<times> string list"
where
  "read_collision pfloat pint line lines =
     (let tokens = drop_outer (split_on (CHR 0xB3) line) in
      attempt (py_index tokens (- 1)) (\<lambda>last_token.
      attempt
        (if cascade_start last_token
         then attempt (read_cascade pfloat pint lines)
                (\<lambda>((target_disp, target_vac, target_replac, target_inter, cascade), lines).
                   Inr ((FloatVal target_disp, FloatVal target_vac, FloatVal target_replac,
                         FloatVal target_inter, Some cascade), lines))
         else attempt (field pfloat tokens 8) (\<lambda>target_disp.
                Inr ((FloatVal target_disp, IntVal 0, IntVal 0, IntVal 0, None), lines)))
        (\<lambda>((target_disp, target_vac, target_replac, target_inter, cascade), lines).
      attempt (field pint tokens 0) (\<lambda>v0.
      attempt (field pfloat tokens 1) (\<lambda>v1.
      attempt (field pfloat tokens 2) (\<lambda>v2.
      attempt (field pfloat tokens 3) (\<lambda>v3.
      attempt (field pfloat tokens 4) (\<lambda>v4.
      attempt (field pfloat tokens 5) (\<lambda>v5.
      attempt (token tokens 6) (\<lambda>t6.
      attempt (case search_symbol t6 of None \<Rightarrow> Inl AttributeError | Some symbol \<Rightarrow> Inr symbol) (\<lambda>v6.
      attempt (field pfloat tokens 7) (\<lambda>v7.
      Inr (\<lparr>event.ion_number = v0, kinetic_energy = v1, depth = v2, lat_y_dist = v3,
             lat_z_dist = v4, stopping_energy = v5, atom = v6, recoil_energy = v7,
             target_disp = target_disp, target_vac = target_vac,
             target_replac = target_replac, target_inter = target_inter,
             cascade = cascade\<rparr>, lines)))))))))))))"


text \<open>
  The loop over the collision lines. A pass consumes the line and, when the line starts a
  cascade, the lines of the cascade; the loop ends at a line of equals signs or when the
  lines are exhausted.
\<close>

function read_collisions ::
  "'f to_float \<Rightarrow> to_int \<Rightarrow> string list \<Rightarrow> 'f event list \<Rightarrow> error + 'f event list \<times> string list"
where
  "read_collisions pfloat pint [] events = Inr (events, [])"
| "read_collisions pfloat pint (line # lines) events =
     (if is_rule (CHR ''='') line then Inr (events, lines)
      else case read_collision pfloat pint line lines of
             Inl e \<Rightarrow> Inl e
           | Inr (ev, rest) \<Rightarrow> read_collisions pfloat pint rest (events @ [ev]))"
  by pat_completeness auto
termination
proof (relation "measure (\<lambda>(pfloat, pint, lines, events). length lines)")
  show "wf (measure (\<lambda>(pfloat, pint, lines, events). length lines))" by simp
next
  fix pfloat :: "'f to_float" and pint :: to_int and line :: string and lines :: "string list"
    and events :: "'f event list" and x :: "'f event \<times> string list"
    and ev :: "'f event" and rest :: "string list"
  assume "\<not> is_rule (CHR ''='') line"
    and rc: "read_collision pfloat pint line lines = Inr x" and x: "(ev, rest) = x"
  have recoils: "length ls' \<le> length ls"
    if "read_recoils pfloat pint ls entries = Inr (c, ls')" for ls entries c ls'
    using that
    by (induction ls arbitrary: entries)
       (fastforce simp: attempt_def Let_def split: if_splits sum.splits)+
  have casc: "length ls' \<le> length ls"
    if "read_cascade pfloat pint ls = Inr (r, ls')" for ls r ls'
    using that recoils
    by (fastforce simp: read_cascade_def attempt_def next_line_def Let_def
          split: if_splits sum.splits list.splits prod.splits)
  have "length rest \<le> length lines"
    using rc x casc
    by (fastforce simp: read_collision_def attempt_def Let_def
          split: if_splits sum.splits prod.splits)
  then show "((pfloat, pint, rest, events @ [ev]), (pfloat, pint, line # lines, events))
        \<in> measure (\<lambda>(pfloat, pint, lines, events). length lines)" by simp
qed

fun read_footer :: "string list \<Rightarrow> string \<Rightarrow> string \<times> string list" where
  "read_footer [] footer = (footer, [])"
| "read_footer (line # lines) footer =
     (if is_rule (CHR ''='') line then (footer, lines) else read_footer lines (footer @ line))"

text \<open>The dictionary that \<open>_read_ion\<close> returns, built from the ion number and the footer matches.\<close>

definition ion_record ::
  "'f to_float \<Rightarrow> to_int \<Rightarrow> string \<Rightarrow> string list \<Rightarrow> 'f event list \<Rightarrow> error + 'f ion"
where
  "ion_record pfloat pint number matches events =
     attempt (convert pint number) (\<lambda>n.
     attempt (field pfloat matches 0) (\<lambda>m0.
     attempt (field pfloat matches 1) (\<lambda>m1.
     attempt (field pfloat matches 2) (\<lambda>m2.
     attempt (field pfloat matches 3) (\<lambda>m3.
     attempt (field pfloat matches 4) (\<lambda>m4.
     attempt (field pfloat matches 5) (\<lambda>m5.
     attempt (field pfloat matches 6) (\<lambda>m6.
     attempt (field pfloat matches 7) (\<lambda>m7.
     attempt (field pfloat matches 8) (\<lambda>m8.
     attempt (field pfloat matches 9) (\<lambda>m9.
     attempt (field pfloat matches 10) (\<lambda>m10.
     attempt (field pfloat matches 11) (\<lambda>m11.
     Inr \<lparr>ion_number = n, displacements = m0, avg_displacements = m1,
           replacements = m2, avg_replacements = m3, vacancies = m4, avg_vacancies = m5,
           interstitials = m6, avg_interstitials = m7, sputtered_atoms = m8,
           avg_sputtered_atoms = m9, transmitted_atoms = m10,
           avg_transmitted_atoms = m11, collisions = events\<rparr>)))))))))))))"

definition read_ion :: "'f to_float \<Rightarrow> to_int \<Rightarrow> string \<Rightarrow> error + 'f ion" where
  "read_ion pfloat pint ion_str =
     (let lines = skip_past_rule (CHR ''-'') (split_on (CHR 0x0A) ion_str) in
      attempt (read_collisions pfloat pint lines []) (\<lambda>(events, lines).
      attempt (next_line lines) (\<lambda>(line, lines).
      attempt (case search_int line of None \<Rightarrow> Inl AttributeError | Some s \<Rightarrow> Inr s) (\<lambda>number.
      case read_footer lines [] of (footer, lines) \<Rightarrow>
      let matches = findall_double footer in
      attempt (next_line lines) (\<lambda>(line, lines).
      ion_record pfloat pint number matches events)))))"

subsection \<open>The class \<open>Collision\<close>\<close>

text \<open>
  \<open>__init__\<close> opens the file in text mode, where \<open>\\r\\n\<close> and \<open>\\r\<close> are read
  as \<open>\\n\<close> and the lines keep their line feed, reads the header and drops it, and
  scans the file for the marker from offset 0. \<open>Collision_len\<close> is \<open>__len__\<close> and
  \<open>Collision_getitem\<close> is \<open>__getitem__\<close>. \<open>file_read file p n\<close> is
  \<open>f.seek(p); f.read(n)\<close> on a file opened in binary mode: it reads to the end of the
  file for \<open>n = -1\<close> and raises \<open>ValueError\<close> for a smaller \<open>n\<close>.
\<close>

definition marker :: bytes where
  "marker = ''  Ion    Energy''"

record Collision =
  filename :: string
  ion_index :: "nat list"

fun universal_newlines :: "bool \<Rightarrow> string \<Rightarrow> string" where
  "universal_newlines after_cr [] = []"
| "universal_newlines after_cr (c # cs) =
     (if c = CHR 0x0D then CHR 0x0A # universal_newlines True cs
      else if c = CHR 0x0A \<and> after_cr then universal_newlines False cs
      else c # universal_newlines False cs)"

fun lines_keepends :: "string \<Rightarrow> string \<Rightarrow> string list" where
  "lines_keepends cur [] = (if cur = [] then [] else [cur])"
| "lines_keepends cur (c # cs) =
     (if c = CHR 0x0A then (cur @ [c]) # lines_keepends [] cs else lines_keepends (cur @ [c]) cs)"

definition text_lines :: "bytes \<Rightarrow> string list" where
  "text_lines file = lines_keepends [] (universal_newlines False file)"

definition read_header :: "string list \<Rightarrow> string list" where
  "read_header lines = takeWhile (\<lambda>line. line \<noteq> [CHR '' '', CHR 0x0A]) lines"

definition Collision_init :: "filesystem \<Rightarrow> string \<Rightarrow> (error + Collision) option" where
  "Collision_init fs name =
     (case fs name of
        None \<Rightarrow> Some (Inl FileNotFoundError)
      | Some file \<Rightarrow>
          (let header = read_header (text_lines file)
           in case buffered_findall fs name marker 0 of
                None \<Rightarrow> None
              | Some (Inl e) \<Rightarrow> Some (Inl e)
              | Some (Inr positions) \<Rightarrow> Some (Inr \<lparr>filename = name, ion_index = positions\<rparr>)))"

definition Collision_len :: "Collision \<Rightarrow> int" where
  "Collision_len self = int (length (ion_index self)) - 1"

definition getsize :: "filesystem \<Rightarrow> string \<Rightarrow> error + nat" where
  "getsize fs name = (case fs name of None \<Rightarrow> Inl FileNotFoundError | Some file \<Rightarrow> Inr (length file))"

definition file_read :: "bytes \<Rightarrow> nat \<Rightarrow> int \<Rightarrow> error + bytes" where
  "file_read file p n =
     (if n < - 1 then Inl ValueError
      else if n = - 1 then Inr (drop p file)
      else Inr (take (nat n) (drop p file)))"

definition Collision_getitem ::
  "'f to_float \<Rightarrow> to_int \<Rightarrow> filesystem \<Rightarrow> Collision \<Rightarrow> int \<Rightarrow> error + 'f ion"
where
  "Collision_getitem pfloat pint fs self i =
     attempt (py_index (ion_index self) i) (\<lambda>start.
     attempt (if i = int (length (ion_index self)) then getsize fs (filename self)
              else py_index (ion_index self) (i + 1)) (\<lambda>end.
     case fs (filename self) of
       None \<Rightarrow> Inl FileNotFoundError
     | Some file \<Rightarrow>
         attempt (file_read file start (int end - int start)) (\<lambda>ion_str.
         read_ion pfloat pint ion_str)))"

section \<open>Sample inputs\<close>

text \<open>
  Concrete conversions and files on which the definitions are evaluated.
  \<open>sample_int\<close> converts an optional sign followed by decimal digits, within
  whitespace; \<open>sample_float\<close> accepts the numerals of \<open>double_regex\<close> within
  whitespace and stands for the float by its numeral. Both accept a part of what
  Python's \<open>int\<close> and \<open>float\<close> accept. \<open>one_file name content\<close> is the file system
  with a single file.
\<close>

definition strip :: "string \<Rightarrow> string" where
  "strip s = rev (dropWhile is_space (rev (dropWhile is_space s)))"

definition digit_value :: "char \<Rightarrow> int" where
  "digit_value c = int (length (takeWhile (\<lambda>d. d \<noteq> c) ''0123456789''))"

definition sample_int :: to_int where
  "sample_int s =
     (let t = strip s;
          ds = (case t of [] \<Rightarrow> [] | c # r \<Rightarrow> if is_sign c then r else t)
      in if ds \<noteq> [] \<and> list_all is_digit ds
         then Some ((if take 1 t = ''-'' then - 1 else 1) * foldl (\<lambda>n c. 10 * n + digit_value c) 0 ds)
         else None)"

definition sample_float :: "string to_float" where
  "sample_float s = (let t = strip s in if match_double t = Some (length t) then Some t else None)"

definition one_file :: "string \<Rightarrow> bytes \<Rightarrow> filesystem" where
  "one_file name content = (\<lambda>n. if n = name then Some content else None)"

text \<open>
  Sample inputs of the locator: the pattern \<open>\\.\<close> with a file of 4097 bytes whose
  only dot is the last byte of the first window; a file in which the marker straddles
  the end of the first window and occurs once more behind it; a pattern one byte longer
  than the window with a file of two windows; and a file with the marker at offset 2.
\<close>

definition dot_pattern :: bytes where
  "dot_pattern = [CHR 0x5C, CHR ''.'']"

definition dot_file :: bytes where
  "dot_file = replicate 4095 (CHR ''a'') @ ''.a''"

definition straddle_file :: bytes where
  "straddle_file = replicate 4090 (CHR ''x'') @ marker @ marker"

definition long_pattern :: bytes where
  "long_pattern = replicate 4097 (CHR ''a'')"

definition long_file :: bytes where
  "long_file = replicate 8192 (CHR ''a'')"

definition offset_file :: bytes where
  "offset_file = ''xx'' @ marker"

section \<open>Properties of the locator\<close>

lemma passes_imp_loop:
  "scan_passes n file pat bs st = Some r \<Longrightarrow> scan_loop file pat bs st = Some r"
proof (induction n arbitrary: st)
  case 0 then show ?case by simp
next
  case (Suc n)
  show ?case
  proof (cases "loop_body file pat bs st")
    case (Inl st')
    with Suc.prems have "scan_passes n file pat bs st' = Some r" by simp
    then have "scan_loop file pat bs st' = Some r" by (rule Suc.IH)
    with Inl show ?thesis by (subst scan_loop.simps) simp
  next
    case (Inr ps)
    with Suc.prems show ?thesis by (subst scan_loop.simps) simp
  qed
qed

lemma loop_imp_passes:
  "scan_loop file pat bs st = Some r \<Longrightarrow> \<exists>n. scan_passes n file pat bs st = Some r"
proof (induction rule: scan_loop.raw_induct[rotated 1, consumes 1])
  case (1 sl f pat bs st r)
  show ?case
  proof (cases "loop_body f pat bs st")
    case (Inl st')
    with 1(2) have "sl f pat bs st' = Some r" by simp
    then obtain n where "scan_passes n f pat bs st' = Some r" using 1(1) by blast
    with Inl have "scan_passes (Suc n) f pat bs st = Some r" by simp
    then show ?thesis by blast
  next
    case (Inr ps)
    with 1(2) have "scan_passes (Suc 0) f pat bs st = Some r" by simp
    then show ?thesis by blast
  qed
qed

lemma finditer_bounds:
  "e \<in> set (finditer pat k i cs) \<Longrightarrow> i + k \<le> e \<and> e + length pat \<le> i + length cs"
proof (induction cs arbitrary: k i)
  case Nil
  then show ?case by (simp split: if_splits)
next
  case (Cons c cs)
  show ?case
  proof (cases "0 < k")
    case True
    with Cons.prems have "e \<in> set (finditer pat (k - 1) (Suc i) cs)" by simp
    from Cons.IH[OF this] True show ?thesis by simp
  next
    case k0: False
    show ?thesis
    proof (cases "prefix pat (c # cs)")
      case True
      then have len: "length pat \<le> Suc (length cs)" using prefix_length_le by fastforce
      from Cons.prems k0 True
      consider "e = i" | "e \<in> set (finditer pat (length pat - 1) (Suc i) cs)" by auto
      then show ?thesis
      proof cases
        case 1 with k0 len show ?thesis by simp
      next
        case 2 from Cons.IH[OF 2] k0 show ?thesis by simp
      qed
    next
      case False
      with Cons.prems k0 have "e \<in> set (finditer pat 0 (Suc i) cs)" by simp
      from Cons.IH[OF this] k0 show ?thesis by simp
    qed
  qed
qed

lemma finditer_sorted: "sorted_wrt (<) (finditer pat k i cs)"
proof (induction cs arbitrary: k i)
  case Nil
  then show ?case by simp
next
  case (Cons c cs)
  have "\<And>e. e \<in> set (finditer pat (length pat - 1) (Suc i) cs) \<Longrightarrow> i < e"
    using finditer_bounds by fastforce
  with Cons.IH show ?case by simp
qed

lemma unescape_plain: "list_all (\<lambda>c. \<not> is_meta c) s \<Longrightarrow> unescape False s = s"
  by (induction s) (simp_all add: is_meta_def)

lemma plain_literal: "plain pat \<Longrightarrow> pattern_literal pat = pat"
  by (simp add: plain_def pattern_literal_def unescape_plain)

lemma match_starts_sorted: "sorted_wrt (<) (match_starts pat buf)"
  by (simp add: match_starts_def finditer_sorted)

lemma match_starts_fit:
  "plain pat \<Longrightarrow> e \<in> set (match_starts pat buf) \<Longrightarrow> e + length pat \<le> length buf"
  using finditer_bounds[of e pat 0 0 buf] by (simp add: match_starts_def plain_literal)

lemma match_starts_long:
  assumes pl: "plain pat"
  shows "length buf < length pat \<Longrightarrow> match_starts pat buf = []"
proof (cases "match_starts pat buf")
  case Nil
  then show ?thesis .
next
  case (Cons e es)
  assume a: "length buf < length pat"
  from Cons have "e \<in> set (match_starts pat buf)" by simp
  from match_starts_fit[OF pl this] a show ?thesis by simp
qed

lemma loop_body_Inl:
  assumes "loop_body file pat bs (p, acc) = Inl (p2, acc2)"
  shows "take bs (drop (seek_back file pat p) file) \<noteq> []"
    and "p2 = seek_back file pat p + length (take bs (drop (seek_back file pat p) file))"
    and "acc2 = acc @ map (\<lambda>j. seek_back file pat p + j)
                         (match_starts pat (take bs (drop (seek_back file pat p) file)))"
  using assms by (auto simp: loop_body_def Let_def split: if_splits)

lemma loop_body_Inr:
  assumes "loop_body file pat bs (p, acc) = Inr r"
  shows "r = acc" and "take bs (drop (seek_back file pat p) file) = []"
  using assms by (auto simp: loop_body_def Let_def split: if_splits)

lemma loop_body_cases:
  "loop_body file pat bs (p, acc) =
     (if take bs (drop (seek_back file pat p) file) = [] then Inr acc
      else Inl (seek_back file pat p + length (take bs (drop (seek_back file pat p) file)),
                acc @ map (\<lambda>j. seek_back file pat p + j)
                         (match_starts pat (take bs (drop (seek_back file pat p) file)))))"
  by (simp add: loop_body_def Let_def)

lemma seek_back_le: "length pat \<le> bs \<Longrightarrow> p < length file \<Longrightarrow> bs \<noteq> 0 \<or> pat = [] \<Longrightarrow>
   seek_back file pat p + bs > p"
  by (auto simp: seek_back_def overlap_of_def)

lemma passes_sorted:
  assumes pl: "plain pat"
  shows "scan_passes n file pat bs (p, acc) = Some r \<Longrightarrow> length pat \<le> bs \<Longrightarrow>
   sorted_wrt (<) acc \<Longrightarrow> (\<forall>x\<in>set acc. x + length pat \<le> p) \<Longrightarrow> sorted_wrt (<) r"
proof (induction n arbitrary: p acc)
  case 0
  then show ?case by simp
next
  case (Suc n)
  let ?p1 = "seek_back file pat p"
  let ?buf = "take bs (drop ?p1 file)"
  show ?case
  proof (cases "?buf = []")
    case True
    with Suc.prems(1) have "r = acc" by (simp add: loop_body_cases)
    with Suc.prems(3) show ?thesis by simp
  next
    case False
    let ?p2 = "?p1 + length ?buf"
    let ?new = "map (\<lambda>j. ?p1 + j) (match_starts pat ?buf)"
    from False Suc.prems(1)
    have run: "scan_passes n file pat bs (?p2, acc @ ?new) = Some r"
      by (simp add: loop_body_cases)
    from False have plt: "?p1 < length file" by (rule_tac ccontr) simp
    have old_lt: "x < ?p1" if "x \<in> set acc" for x
    proof -
      from that Suc.prems(4) have "x + length pat \<le> p" by blast
      then show ?thesis using plt by (auto simp: seek_back_def overlap_of_def split: if_splits)
    qed
    have p_le: "p \<le> ?p2"
    proof (cases "overlap_of pat \<le> int p \<and> p < length file")
      case True
      with Suc.prems(2) False show ?thesis
        by (auto simp: seek_back_def overlap_of_def min_def)
    next
      case False
      then have "seek_back file pat p = p" unfolding seek_back_def by (rule if_not_P)
      then show ?thesis by simp
    qed
    have s_new: "sorted_wrt (<) ?new"
      using match_starts_sorted[of pat ?buf] by (simp add: sorted_wrt_map)
    have s2: "sorted_wrt (<) (acc @ ?new)"
      using Suc.prems(3) s_new old_lt by (fastforce simp: sorted_wrt_append)
    have b2: "\<forall>x\<in>set (acc @ ?new). x + length pat \<le> ?p2"
    proof
      fix x assume "x \<in> set (acc @ ?new)"
      then consider "x \<in> set acc" | j where "x = ?p1 + j" "j \<in> set (match_starts pat ?buf)"
        by auto
      then show "x + length pat \<le> ?p2"
      proof cases
        case 1
        with Suc.prems(4) p_le show ?thesis by fastforce
      next
        case 2
        from match_starts_fit[OF pl 2(2)] 2(1) show ?thesis by simp
      qed
    qed
    from Suc.IH[OF run Suc.prems(2) s2 b2] show ?thesis .
  qed
qed

lemma passes_long:
  assumes pl: "plain pat"
  shows "scan_passes n file pat bs (p, []) = Some r \<Longrightarrow> bs < length pat \<Longrightarrow> r = []"
proof (induction n arbitrary: p)
  case 0
  then show ?case by simp
next
  case (Suc n)
  let ?buf = "take bs (drop (seek_back file pat p) file)"
  have "match_starts pat ?buf = []"
    using Suc.prems(2) by (intro match_starts_long[OF pl]) simp
  with Suc.prems(1) Suc.IH[OF _ Suc.prems(2)] show ?case
    by (auto simp: loop_body_cases split: if_splits)
qed

lemma pass_bound_step:
  assumes "0 < d" "p + d \<le> p2" "p2 \<le> fs"
  shows "Suc (pass_bound d fs p2) \<le> pass_bound d fs p"
proof -
  have "fs - p2 + d - 1 \<le> fs - p - 1" using assms by simp
  then have "(fs - p2 + d - 1) div d \<le> (fs - p - 1) div d" by (rule div_le_mono)
  moreover have e: "fs - p + d - 1 = (fs - p - 1) + d" using assms by simp
  have "(fs - p + d - 1) div d = (fs - p - 1) div d + 1"
    unfolding e using assms(1) by (simp only: div_add_self2) 
  ultimately show ?thesis unfolding pass_bound_def by linarith
qed

lemma pass_bound_last:
  assumes "0 < d" "p < fs"
  shows "2 \<le> pass_bound d fs p"
proof -
  have "d \<le> fs - p + d - 1" using assms by simp
  then have "d div d \<le> (fs - p + d - 1) div d" by (rule div_le_mono)
  with assms(1) show ?thesis by (simp add: pass_bound_def)
qed

lemma passes_terminate:
  assumes "length pat \<le> bs"
  shows "\<exists>n r. n \<le> pass_bound (bs + 1 - length pat) (length file) p \<and>
               scan_passes n file pat bs (p, acc) = Some r"
proof (induction "length file - p" arbitrary: p acc rule: less_induct)
  case less
  let ?d = "bs + 1 - length pat"
  let ?p1 = "seek_back file pat p"
  let ?buf = "take bs (drop ?p1 file)"
  have d: "0 < ?d" using assms by simp
  show ?case
  proof (cases "?buf = []")
    case True
    then have "scan_passes (Suc 0) file pat bs (p, acc) = Some acc"
      by (simp add: loop_body_cases)
    moreover have "Suc 0 \<le> pass_bound ?d (length file) p" by (simp add: pass_bound_def)
    ultimately show ?thesis by blast
  next
    case False
    let ?p2 = "?p1 + length ?buf"
    let ?acc2 = "acc @ map (\<lambda>j. ?p1 + j) (match_starts pat ?buf)"
    from False have p1: "?p1 < length file" and bs: "0 < bs" by (rule_tac ccontr, simp)+
    have p: "p < length file"
    proof (rule ccontr)
      assume "\<not> p < length file"
      then have "?p1 = p" by (simp add: seek_back_def)
      with p1 \<open>\<not> p < length file\<close> show False by simp
    qed
    have p2_le: "?p2 \<le> length file" using p1 by simp
    have far: "?p2 = length file \<or> p + ?d \<le> ?p2"
      using assms p p1 bs by (auto simp: seek_back_def overlap_of_def min_def)
    have "p < ?p2" using far p d by auto
    then have "length file - ?p2 < length file - p" using p by simp
    from less[OF this, of ?acc2] obtain n r
      where n: "n \<le> pass_bound ?d (length file) ?p2"
        and r: "scan_passes n file pat bs (?p2, ?acc2) = Some r" by blast
    from False r have run: "scan_passes (Suc n) file pat bs (p, acc) = Some r"
      by (simp add: loop_body_cases)
    have "Suc n \<le> pass_bound ?d (length file) p"
    proof (cases "?p2 = length file")
      case True
      then have "pass_bound ?d (length file) ?p2 = 1" using d by (simp add: pass_bound_def)
      with n pass_bound_last[OF d p] show ?thesis by simp
    next
      case False
      with far have "p + ?d \<le> ?p2" by blast
      from pass_bound_step[OF d this p2_le] n show ?thesis by simp
    qed
    with run show ?thesis by blast
  qed
qed

lemma pass_bound_le: "0 < d \<Longrightarrow> pass_bound d fs p \<le> (fs - p) div d + 2"
proof -
  assume d: "0 < d"
  have "fs - p + d - 1 \<le> (fs - p) + d" by simp
  then have "(fs - p + d - 1) div d \<le> ((fs - p) + d) div d" by (rule div_le_mono)
  moreover have "((fs - p) + d) div d = (fs - p) div d + 1"
    using d by (simp only: div_add_self2)
  ultimately show ?thesis unfolding pass_bound_def by linarith
qed

lemma occurs_at_fits: "occurs_at pat file i \<Longrightarrow> pat \<noteq> [] \<Longrightarrow> i + length pat \<le> length file"
  using prefix_length_le[of pat "drop i file"] by (cases pat) (auto simp: occurs_at_def)

lemma set_occurrences: "pat \<noteq> [] \<Longrightarrow> set (occurrences pat file) = {i. occurs_at pat file i}"
proof -
  assume ne: "pat \<noteq> []"
  have "i < Suc (length file)" if "occurs_at pat file i" for i
    using occurs_at_fits[OF that ne] by simp
  then show ?thesis by (auto simp: occurrences_def simp del: upt_Suc)
qed

lemma occurs_at_Cons: "occurs_at pat (c # cs) (Suc j) = occurs_at pat cs j"
  by (simp add: occurs_at_def)

lemma occurs_at_0: "occurs_at pat cs 0 = prefix pat cs"
  by (simp add: occurs_at_def)

lemma prefix_take_iff: "prefix pat (take n ys) \<longleftrightarrow> length pat \<le> n \<and> prefix pat ys"
proof
  assume a: "prefix pat (take n ys)"
  then have "length pat \<le> length (take n ys)" by (rule prefix_length_le)
  then have "length pat \<le> n" by simp
  moreover have "prefix (take n ys) ys" by (rule take_is_prefix)
  with a have "prefix pat ys" by (rule prefix_order.trans)
  ultimately show "length pat \<le> n \<and> prefix pat ys" by simp
next
  assume a: "length pat \<le> n \<and> prefix pat ys"
  then obtain zs where "ys = pat @ zs" by (auto simp: prefix_def)
  with a show "prefix pat (take n ys)" by simp
qed

lemma occurs_at_window:
  "pat \<noteq> [] \<Longrightarrow>
   occurs_at pat (take l (drop a file)) j \<longleftrightarrow> j + length pat \<le> l \<and> occurs_at pat file (a + j)"
  by (cases pat) (auto simp: occurs_at_def drop_take prefix_take_iff add.commute)

lemma no_overlap_iff:
  "pat \<noteq> [] \<Longrightarrow> no_overlap pat file \<longleftrightarrow>
     (\<forall>a b. occurs_at pat file a \<longrightarrow> occurs_at pat file b \<longrightarrow> a < b \<longrightarrow> a + length pat \<le> b)"
  by (simp add: no_overlap_def list_all_iff set_occurrences)

lemma finditer_set:
  assumes "pat \<noteq> []"
  shows "(\<forall>a b. occurs_at pat cs a \<longrightarrow> occurs_at pat cs b \<longrightarrow> a < b \<longrightarrow> a + length pat \<le> b) \<Longrightarrow>
         (\<forall>j<k. \<not> occurs_at pat cs j) \<Longrightarrow>
         x \<in> set (finditer pat k i cs) \<longleftrightarrow> i \<le> x \<and> occurs_at pat cs (x - i)"
proof (induction cs arbitrary: k i)
  case Nil
  with assms show ?case by (simp add: occurs_at_def)
next
  case (Cons c cs)
  have sp: "\<forall>a b. occurs_at pat cs a \<longrightarrow> occurs_at pat cs b \<longrightarrow> a < b \<longrightarrow> a + length pat \<le> b"
  proof (intro allI impI)
    fix a b assume "occurs_at pat cs a" "occurs_at pat cs b" "a < b"
    then have "occurs_at pat (c # cs) (Suc a)" "occurs_at pat (c # cs) (Suc b)" "Suc a < Suc b"
      by (simp_all add: occurs_at_Cons)
    with Cons.prems(1) have "Suc a + length pat \<le> Suc b" by blast
    then show "a + length pat \<le> b" by simp
  qed
  have shift: "(Suc i \<le> x \<and> occurs_at pat cs (x - Suc i)) \<longleftrightarrow>
               (i < x \<and> occurs_at pat (c # cs) (x - i))"
  proof (cases "i < x")
    case True
    then have "x - i = Suc (x - Suc i)" by simp
    with True show ?thesis by (simp add: occurs_at_Cons)
  next
    case False
    then show ?thesis by simp
  qed
  show ?case
  proof (cases "0 < k")
    case True
    have "\<forall>j<k - 1. \<not> occurs_at pat cs j"
    proof (intro allI impI)
      fix j assume "j < k - 1"
      then have "Suc j < k" by simp
      with Cons.prems(2) have "\<not> occurs_at pat (c # cs) (Suc j)" by blast
      then show "\<not> occurs_at pat cs j" by (simp add: occurs_at_Cons)
    qed
    from Cons.IH[OF sp this, of "Suc i"] True
    have "x \<in> set (finditer pat k i (c # cs)) \<longleftrightarrow> Suc i \<le> x \<and> occurs_at pat cs (x - Suc i)"
      by simp
    also have "\<dots> \<longleftrightarrow> i < x \<and> occurs_at pat (c # cs) (x - i)" by (rule shift)
    also have "\<dots> \<longleftrightarrow> i \<le> x \<and> occurs_at pat (c # cs) (x - i)"
      using Cons.prems(2) True by (cases "x = i") auto
    finally show ?thesis .
  next
    case k0: False
    show ?thesis
    proof (cases "prefix pat (c # cs)")
      case True
      then have o0: "occurs_at pat (c # cs) 0" by (simp add: occurs_at_0)
      have "\<forall>j<length pat - 1. \<not> occurs_at pat cs j"
      proof (intro allI impI notI)
        fix j assume j: "j < length pat - 1" and "occurs_at pat cs j"
        then have "occurs_at pat (c # cs) (Suc j)" by (simp add: occurs_at_Cons)
        with Cons.prems(1) o0 have "0 + length pat \<le> Suc j" by blast
        with j show False by simp
      qed
      from Cons.IH[OF sp this, of "Suc i"] True k0
      have "x \<in> set (finditer pat k i (c # cs)) \<longleftrightarrow>
              x = i \<or> (Suc i \<le> x \<and> occurs_at pat cs (x - Suc i))" by simp
      also have "\<dots> \<longleftrightarrow> x = i \<or> (i < x \<and> occurs_at pat (c # cs) (x - i))"
        by (simp only: shift)
      also have "\<dots> \<longleftrightarrow> i \<le> x \<and> occurs_at pat (c # cs) (x - i)"
        using o0 by (cases "x = i") auto
      finally show ?thesis .
    next
      case False
      then have o0: "\<not> occurs_at pat (c # cs) 0" by (simp add: occurs_at_0)
      from Cons.IH[OF sp, of 0 "Suc i"] False k0
      have "x \<in> set (finditer pat k i (c # cs)) \<longleftrightarrow> Suc i \<le> x \<and> occurs_at pat cs (x - Suc i)"
        by simp
      also have "\<dots> \<longleftrightarrow> i < x \<and> occurs_at pat (c # cs) (x - i)" by (rule shift)
      also have "\<dots> \<longleftrightarrow> i \<le> x \<and> occurs_at pat (c # cs) (x - i)"
        using o0 by (cases "x = i") auto
      finally show ?thesis .
    qed
  qed
qed

lemma match_starts_set:
  assumes "pat \<noteq> []"
      and "\<forall>a b. occurs_at pat buf a \<longrightarrow> occurs_at pat buf b \<longrightarrow> a < b \<longrightarrow> a + length pat \<le> b"
      and "plain pat"
  shows "x \<in> set (match_starts pat buf) \<longleftrightarrow> occurs_at pat buf x"
  using finditer_set[OF assms(1) assms(2), of 0 x 0]
  by (simp add: match_starts_def plain_literal[OF assms(3)])

lemma window_spaced:
  assumes "pat \<noteq> []"
      and "\<forall>a b. occurs_at pat file a \<longrightarrow> occurs_at pat file b \<longrightarrow> a < b \<longrightarrow> a + length pat \<le> b"
  shows "\<forall>a b. occurs_at pat (take l (drop s file)) a \<longrightarrow> occurs_at pat (take l (drop s file)) b
            \<longrightarrow> a < b \<longrightarrow> a + length pat \<le> b"
proof (intro allI impI)
  fix a b
  assume "occurs_at pat (take l (drop s file)) a" "occurs_at pat (take l (drop s file)) b" "a < b"
  then have "occurs_at pat file (s + a)" "occurs_at pat file (s + b)" "s + a < s + b"
    by (simp_all add: occurs_at_window[OF assms(1)])
  with assms(2) have "s + a + length pat \<le> s + b" by blast
  then show "a + length pat \<le> b" by simp
qed

lemma window_matches:
  assumes "pat \<noteq> []"
      and "\<forall>a b. occurs_at pat file a \<longrightarrow> occurs_at pat file b \<longrightarrow> a < b \<longrightarrow> a + length pat \<le> b"
      and pl: "plain pat"
  shows "x \<in> set (map (\<lambda>j. s + j) (match_starts pat (take l (drop s file)))) \<longleftrightarrow>
         s \<le> x \<and> occurs_at pat file x \<and> x + length pat \<le> s + l"
proof -
  have "x \<in> set (map (\<lambda>j. s + j) (match_starts pat (take l (drop s file)))) \<longleftrightarrow>
        (\<exists>j. x = s + j \<and> occurs_at pat (take l (drop s file)) j)"
    using match_starts_set[OF assms(1) window_spaced[OF assms(1,2)] pl] by auto
  also have "\<dots> \<longleftrightarrow> (\<exists>j. x = s + j \<and> j + length pat \<le> l \<and> occurs_at pat file (s + j))"
    by (simp add: occurs_at_window[OF assms(1)])
  also have "\<dots> \<longleftrightarrow> s \<le> x \<and> occurs_at pat file x \<and> x + length pat \<le> s + l"
  proof
    assume "\<exists>j. x = s + j \<and> j + length pat \<le> l \<and> occurs_at pat file (s + j)"
    then show "s \<le> x \<and> occurs_at pat file x \<and> x + length pat \<le> s + l" by auto
  next
    assume a: "s \<le> x \<and> occurs_at pat file x \<and> x + length pat \<le> s + l"
    then have "x = s + (x - s) \<and> (x - s) + length pat \<le> l \<and> occurs_at pat file (s + (x - s))"
      by auto
    then show "\<exists>j. x = s + j \<and> j + length pat \<le> l \<and> occurs_at pat file (s + j)" by blast
  qed
  finally show ?thesis .
qed

lemma window_matches_file:
  assumes "pat \<noteq> []"
      and "\<forall>a b. occurs_at pat file a \<longrightarrow> occurs_at pat file b \<longrightarrow> a < b \<longrightarrow> a + length pat \<le> b"
      and "s \<le> length file"
      and pl: "plain pat"
  shows "set (map (\<lambda>j. s + j) (match_starts pat (take l (drop s file)))) =
         {x. occurs_at pat file x \<and> s \<le> x \<and> x + length pat \<le> s + length (take l (drop s file))}"
proof -
  have "x + length pat \<le> s + l \<longleftrightarrow> x + length pat \<le> s + length (take l (drop s file))"
    if "occurs_at pat file x" for x
    using occurs_at_fits[OF that assms(1)] assms(3) by (auto simp: min_def)
  then show ?thesis
    unfolding set_eq_iff window_matches[OF assms(1,2) pl] by auto
qed

lemma seek_back_le_self: "pat \<noteq> [] \<Longrightarrow> seek_back file pat p \<le> p"
  by (cases pat) (auto simp: seek_back_def overlap_of_def)

lemma passes_exact:
  assumes pl: "plain pat" and ne: "pat \<noteq> []" and fit: "length pat \<le> bs"
      and sp: "\<forall>a b. occurs_at pat file a \<longrightarrow> occurs_at pat file b \<longrightarrow> a < b \<longrightarrow> a + length pat \<le> b"
  shows "scan_passes n file pat bs (p, acc) = Some r \<Longrightarrow>
         set acc = {i. occurs_at pat file i \<and> lo \<le> i \<and> i + length pat \<le> p} \<Longrightarrow>
         lo + bs \<le> p \<or> length file \<le> p \<Longrightarrow>
         set r = {i. occurs_at pat file i \<and> lo \<le> i}"
proof (induction n arbitrary: p acc)
  case 0
  then show ?case by simp
next
  case (Suc n)
  let ?p1 = "seek_back file pat p"
  let ?buf = "take bs (drop ?p1 file)"
  have m: "0 < length pat" using ne by simp
  show ?case
  proof (cases "?buf = []")
    case True
    with Suc.prems(1) have r: "r = acc" by (simp add: loop_body_cases)
    from True m fit have "length file \<le> ?p1" by simp
    with seek_back_le_self[OF ne] have "length file \<le> p" by (rule_tac order_trans)
    then have "i + length pat \<le> p" if "occurs_at pat file i" for i
      using occurs_at_fits[OF that ne] by simp
    with Suc.prems(2) r show ?thesis by auto
  next
    case False
    let ?p2 = "?p1 + length ?buf"
    let ?new = "map (\<lambda>j. ?p1 + j) (match_starts pat ?buf)"
    from False Suc.prems(1)
    have run: "scan_passes n file pat bs (?p2, acc @ ?new) = Some r"
      by (simp add: loop_body_cases)
    from False have p1: "?p1 < length file" by (rule_tac ccontr) simp
    have p: "p < length file"
    proof (rule ccontr)
      assume "\<not> p < length file"
      then have "?p1 = p" by (simp add: seek_back_def)
      with p1 \<open>\<not> p < length file\<close> show False by simp
    qed
    with Suc.prems(3) have lo: "lo + bs \<le> p" by simp
    with fit p have p1_eq: "?p1 + length pat = Suc p"
      by (simp add: seek_back_def overlap_of_def)
    have new: "set ?new = {x. occurs_at pat file x \<and> ?p1 \<le> x \<and> x + length pat \<le> ?p2}"
      using p1 pl by (intro window_matches_file[OF ne sp]) simp_all
    have p2: "?p2 = length file \<or> ?p2 = ?p1 + bs" using p1 by (auto simp: min_def)
    have "set (acc @ ?new) = {i. occurs_at pat file i \<and> lo \<le> i \<and> i + length pat \<le> ?p2}"
    proof -
      have "i + length pat \<le> ?p2" if "occurs_at pat file i" "i + length pat \<le> p" for i
        using p2 that p p1_eq fit by auto
      moreover have "lo \<le> i" if "?p1 \<le> i" for i
        using that lo p1_eq fit by simp
      moreover have "i + length pat \<le> p \<or> ?p1 \<le> i" for i
        using p1_eq by auto
      ultimately show ?thesis
        unfolding set_append new Suc.prems(2) by blast
    qed
    moreover have "lo + bs \<le> ?p2 \<or> length file \<le> ?p2"
      using p2 lo p1_eq fit by auto
    ultimately show ?thesis using Suc.IH[OF run] by blast
  qed
qed

lemma sorted_occurrences: "sorted_wrt (<) (filter P (occurrences pat file))"
  unfolding occurrences_def by (intro sorted_wrt_filter) (simp del: upt_Suc)

lemma scan_loop_exact:
  assumes pl: "plain pat" and ne: "pat \<noteq> []" and fit: "length pat \<le> bs"
      and sp: "\<forall>a b. occurs_at pat file a \<longrightarrow> occurs_at pat file b \<longrightarrow> a < b \<longrightarrow> a + length pat \<le> b"
  shows "scan_loop file pat bs (s, []) =
           Some (filter (\<lambda>i. seek_back file pat s \<le> i) (occurrences pat file))"
proof -
  let ?lo = "seek_back file pat s"
  let ?buf = "take bs (drop ?lo file)"
  from passes_terminate[OF fit] obtain n r
    where run: "scan_passes n file pat bs (s, []) = Some r" by blast
  have sorted: "sorted_wrt (<) r"
    using passes_sorted[OF pl run fit] by simp
  have m: "0 < length pat" using ne by simp
  obtain n' where n: "n = Suc n'" using run by (cases n) simp_all
  have "set r = {i. occurs_at pat file i \<and> ?lo \<le> i}"
  proof (cases "?buf = []")
    case True
    with run n have r: "r = []" by (simp add: loop_body_cases)
    from True m fit have "length file \<le> ?lo" by simp
    then have "\<not> ?lo \<le> i" if "occurs_at pat file i" for i
      using occurs_at_fits[OF that ne] m by linarith
    with r show ?thesis by auto
  next
    case False
    let ?p2 = "?lo + length ?buf"
    let ?new = "map (\<lambda>j. ?lo + j) (match_starts pat ?buf)"
    from False run n
    have run': "scan_passes n' file pat bs (?p2, ?new) = Some r"
      by (simp add: loop_body_cases)
    from False have p1: "?lo < length file" by (rule_tac ccontr) simp
    have new: "set ?new = {x. occurs_at pat file x \<and> ?lo \<le> x \<and> x + length pat \<le> ?p2}"
      using p1 pl by (intro window_matches_file[OF ne sp]) simp_all
    have "?lo + bs \<le> ?p2 \<or> length file \<le> ?p2" using p1 by (auto simp: min_def)
    from passes_exact[OF pl ne fit sp run' new this] show ?thesis .
  qed
  then have "set r = set (filter (\<lambda>i. ?lo \<le> i) (occurrences pat file))"
    by (auto simp: set_occurrences[OF ne])
  with sorted have "r = filter (\<lambda>i. ?lo \<le> i) (occurrences pat file)"
    using strict_sorted_equal sorted_occurrences by blast
  with passes_imp_loop[OF run] show ?thesis by simp
qed

lemma occurs_at_nth:
  assumes "occurs_at pat file a" "j < length pat"
  shows "file ! (a + j) = pat ! j"
proof -
  from assms(1) obtain zs where z: "drop a file = pat @ zs" by (auto simp: occurs_at_def prefix_def)
  then have "drop a file ! j = pat ! j" using assms(2) by (simp add: nth_append)
  moreover have "a + j < length file"
  proof -
    have "length (drop a file) = length pat + length zs" using z by simp
    with assms(2) show ?thesis by simp
  qed
  ultimately show ?thesis by simp
qed

lemma unbordered_spaced:
  assumes ne: "pat \<noteq> []" and last: "last pat \<notin> set (butlast pat)"
  shows "\<forall>a b. occurs_at pat file a \<longrightarrow> occurs_at pat file b \<longrightarrow> a < b \<longrightarrow> a + length pat \<le> b"
proof (intro allI impI, rule ccontr)
  fix a b
  assume a: "occurs_at pat file a" and b: "occurs_at pat file b" and ab: "a < b"
     and n: "\<not> a + length pat \<le> b"
  let ?m = "length pat"
  let ?j = "a + ?m - 1 - b"
  have j: "?j < ?m - 1" using ab n by simp
  have "file ! (a + (?m - 1)) = pat ! (?m - 1)" using ne by (intro occurs_at_nth[OF a]) simp
  moreover have "file ! (b + ?j) = pat ! ?j" using j by (intro occurs_at_nth[OF b]) simp
  moreover have "a + (?m - 1) = b + ?j" using ab n by simp
  ultimately have "pat ! ?j = pat ! (?m - 1)" by simp
  also have "\<dots> = last pat" using ne by (simp add: last_conv_nth)
  finally have "last pat = butlast pat ! ?j" using j by (simp add: nth_butlast)
  moreover have "butlast pat ! ?j \<in> set (butlast pat)" using j by (intro nth_mem) simp
  ultimately show False using last by simp
qed

lemma marker_spaced:
  "\<forall>a b. occurs_at marker file a \<longrightarrow> occurs_at marker file b \<longrightarrow> a < b \<longrightarrow> a + length marker \<le> b"
  by (rule unbordered_spaced) (simp_all add: marker_def)

lemma passes_forever:
  assumes long: "bs < length pat" and bs: "0 < bs"
      and big: "length pat - 1 + bs \<le> length file"
  shows "p < length file \<Longrightarrow> scan_passes n file pat bs (p, acc) = None"
proof (induction n arbitrary: p acc)
  case 0
  then show ?case by simp
next
  case (Suc n)
  let ?p1 = "seek_back file pat p"
  let ?buf = "take bs (drop ?p1 file)"
  have p1_le: "?p1 \<le> p" using long by (intro seek_back_le_self) auto
  with Suc.prems have p1: "?p1 < length file" by simp
  with bs have ne: "?buf \<noteq> []" by simp
  have "?p1 + bs < length file"
  proof (cases "overlap_of pat \<le> int p")
    case True
    with Suc.prems long have "?p1 + bs \<le> p" by (simp add: seek_back_def overlap_of_def)
    with Suc.prems show ?thesis by simp
  next
    case False
    then have "?p1 = p" by (simp add: seek_back_def)
    with False big long show ?thesis by (simp add: overlap_of_def)
  qed
  then have "?p1 + length ?buf < length file" by simp
  from Suc.IH[OF this] ne show ?case by (simp add: loop_body_cases)
qed

lemma scan_loop_forever:
  assumes "bs < length pat" "0 < bs" "length pat - 1 + bs \<le> length file" "p < length file"
  shows "scan_loop file pat bs (p, acc) = None"
proof (cases "scan_loop file pat bs (p, acc)")
  case None
  then show ?thesis .
next
  case (Some r)
  from loop_imp_passes[OF this] obtain n where "scan_passes n file pat bs (p, acc) = Some r" ..
  with passes_forever[OF assms] show ?thesis by simp
qed

lemma scan_loop_sorted:
  assumes "scan_loop file pat bs (p, []) = Some r" and pl: "plain pat"
  shows "sorted_wrt (<) r"
proof -
  from loop_imp_passes[OF assms(1)] obtain n where run: "scan_passes n file pat bs (p, []) = Some r" ..
  show ?thesis
  proof (cases "length pat \<le> bs")
    case True
    from passes_sorted[OF pl run True] show ?thesis by simp
  next
    case False
    then have "bs < length pat" by simp
    from passes_long[OF pl run this] show ?thesis by simp
  qed
qed

lemma scan_loop_long:
  assumes "scan_loop file pat bs (p, []) = Some r" "bs < length pat" and pl: "plain pat"
  shows "r = []"
proof -
  from loop_imp_passes[OF assms(1)] obtain n where run: "scan_passes n file pat bs (p, []) = Some r" ..
  from passes_long[OF pl run assms(2)] show ?thesis .
qed

lemma scan_loop_returns:
  assumes "length pat \<le> bs"
  shows "\<exists>n r. n \<le> (length file - p) div (bs + 1 - length pat) + 2 \<and>
               scan_passes n file pat bs (p, acc) = Some r \<and>
               scan_loop file pat bs (p, acc) = Some r"
proof -
  from passes_terminate[OF assms] obtain n r
    where n: "n \<le> pass_bound (bs + 1 - length pat) (length file) p"
      and r: "scan_passes n file pat bs (p, acc) = Some r" by blast
  have "0 < bs + 1 - length pat" using assms by simp
  from pass_bound_le[OF this] n have "n \<le> (length file - p) div (bs + 1 - length pat) + 2"
    by (rule_tac order_trans)
  with r passes_imp_loop[OF r] show ?thesis by blast
qed

subsection \<open>The marker of the store, and the sample inputs\<close>

lemma marker_plain: "plain marker"
  by (simp add: plain_def marker_def is_meta_def)

lemma marker_scan:
  "scan_loop content marker BUFFERSIZE (0, []) = Some (occurrences marker content)"
proof -
  have "scan_loop content marker BUFFERSIZE (0, []) =
          Some (filter (\<lambda>i. seek_back content marker 0 \<le> i) (occurrences marker content))"
    by (rule scan_loop_exact[OF marker_plain _ _ marker_spaced])
       (simp_all add: marker_def BUFFERSIZE_def)
  moreover have "seek_back content marker 0 = 0"
    by (simp add: seek_back_def overlap_of_def marker_def)
  ultimately show ?thesis by simp
qed

lemma buffered_findall_marker:
  "fs name = Some content \<Longrightarrow> buffered_findall fs name marker 0 = Some (Inr (occurrences marker content))"
  by (simp add: buffered_findall_def start_cursor_def marker_scan)

lemma Collision_init_marker:
  "fs name = Some content \<Longrightarrow>
   Collision_init fs name = Some (Inr \<lparr>filename = name, ion_index = occurrences marker content\<rparr>)"
  by (simp add: Collision_init_def buffered_findall_marker)

lemma one_file_same: "one_file name content name = Some content"
  by (simp add: one_file_def)

lemma occ_marker_marker: "occurrences marker marker = [0]"
  by code_simp

lemma occ_marker_empty: "occurrences marker [] = []"
  by code_simp

lemma finditer_replicate:
  "lit \<noteq> [] \<Longrightarrow> hd lit \<noteq> a \<Longrightarrow>
   finditer lit 0 i (replicate n a @ rest) = finditer lit 0 (i + n) rest"
proof (induction n arbitrary: i)
  case 0
  then show ?case by simp
next
  case (Suc n)
  from Suc.prems have "\<not> prefix lit (a # replicate n a @ rest)"
    by (cases lit) auto
  with Suc.IH[OF Suc.prems, of "Suc i"] show ?case by simp
qed

lemma dot_pass1:
  "loop_body dot_file dot_pattern 4096 (0, []) = Inl (4096, [4095])"
proof -
  have sb: "seek_back dot_file dot_pattern 0 = 0"
    by (simp add: seek_back_def overlap_of_def dot_pattern_def)
  have buf: "take 4096 (drop 0 dot_file) = replicate 4095 (CHR ''a'') @ ''.''"
    by (simp add: dot_file_def)
  have ms: "match_starts dot_pattern (replicate 4095 (CHR ''a'') @ ''.'') = [4095]"
    by (simp add: match_starts_def pattern_literal_def dot_pattern_def finditer_replicate)
  show ?thesis
    unfolding loop_body_cases sb buf ms by simp
qed

lemma dot_pass2:
  "loop_body dot_file dot_pattern 4096 (4096, [4095]) = Inl (4097, [4095, 4095])"
proof -
  have sb: "seek_back dot_file dot_pattern 4096 = 4095"
    by (simp add: seek_back_def overlap_of_def dot_pattern_def dot_file_def)
  have buf: "take 4096 (drop 4095 dot_file) = ''.a''"
    by (simp add: dot_file_def)
  have ms: "match_starts dot_pattern ''.a'' = [0]"
    by (simp add: match_starts_def pattern_literal_def dot_pattern_def)
  show ?thesis
    unfolding loop_body_cases sb buf ms by simp
qed

lemma dot_pass3:
  "loop_body dot_file dot_pattern 4096 (4097, [4095, 4095]) = Inr [4095, 4095]"
proof -
  have sb: "seek_back dot_file dot_pattern 4097 = 4097"
    by (simp add: seek_back_def overlap_of_def dot_pattern_def dot_file_def)
  have buf: "take 4096 (drop 4097 dot_file) = []"
    by (simp add: dot_file_def)
  show ?thesis
    unfolding loop_body_cases sb buf by simp
qed

lemma dot_scan: "scan_loop dot_file dot_pattern BUFFERSIZE (0, []) = Some [4095, 4095]"
proof -
  have "scan_passes (Suc (Suc (Suc 0))) dot_file dot_pattern 4096 (0, []) = Some [4095, 4095]"
    by (simp add: dot_pass1 dot_pass2 dot_pass3)
  from passes_imp_loop[OF this] show ?thesis by (simp add: BUFFERSIZE_def)
qed

lemma straddle_scan:
  "scan_loop straddle_file marker BUFFERSIZE (0, []) = Some [4090, 4105]"
proof -
  have lit: "pattern_literal marker = marker" by (rule plain_literal[OF marker_plain])
  have p1: "loop_body straddle_file marker 4096 (0, []) = Inl (4096, [])"
  proof -
    have sb: "seek_back straddle_file marker 0 = 0"
      by (simp add: seek_back_def overlap_of_def marker_def)
    have buf: "take 4096 (drop 0 straddle_file) = replicate 4090 (CHR ''x'') @ ''  Ion ''"
      by (simp add: straddle_file_def marker_def)
    have ms: "match_starts marker (replicate 4090 (CHR ''x'') @ ''  Ion '') = []"
      unfolding match_starts_def lit by (simp add: finditer_replicate marker_def)
    show ?thesis unfolding loop_body_cases sb buf ms by simp
  qed
  have p2: "loop_body straddle_file marker 4096 (4096, []) = Inl (4120, [4090, 4105])"
  proof -
    have sb: "seek_back straddle_file marker 4096 = 4082"
      by (simp add: seek_back_def overlap_of_def marker_def straddle_file_def)
    have buf: "take 4096 (drop 4082 straddle_file) = replicate 8 (CHR ''x'') @ marker @ marker"
      by (simp add: straddle_file_def marker_def)
    have ms: "match_starts marker (replicate 8 (CHR ''x'') @ marker @ marker) = [8, 23]"
      unfolding match_starts_def lit by (simp add: finditer_replicate marker_def)
    have len: "length (replicate 8 (CHR ''x'') @ marker @ marker) = 38"
      by (simp add: marker_def)
    show ?thesis unfolding loop_body_cases sb buf ms len by simp
  qed
  have p3: "loop_body straddle_file marker 4096 (4120, [4090, 4105]) = Inr [4090, 4105]"
  proof -
    have sb: "seek_back straddle_file marker 4120 = 4120"
      by (simp add: seek_back_def overlap_of_def marker_def straddle_file_def)
    have buf: "take 4096 (drop 4120 straddle_file) = []"
      by (simp add: straddle_file_def marker_def)
    show ?thesis unfolding loop_body_cases sb buf by simp
  qed
  have "scan_passes (Suc (Suc (Suc 0))) straddle_file marker 4096 (0, []) = Some [4090, 4105]"
    by (simp add: p1 p2 p3)
  from passes_imp_loop[OF this] show ?thesis by (simp add: BUFFERSIZE_def)
qed

lemma marker_no_overlap: "no_overlap marker content"
  using marker_spaced[of content] by (simp add: no_overlap_iff marker_def)

lemma occ_offset_file: "occurrences marker offset_file = [2]"
  by code_simp

lemma read_header_all:
  "[CHR '' '', CHR 0x0A] \<notin> set lines \<Longrightarrow> read_header lines = lines"
  by (simp add: read_header_def takeWhile_eq_all_conv) blast

section \<open>The claims\<close>

text \<open>
  Claim C1, as amended. For every input file in which the marker occurs \<open>n \<ge> 1\<close>
  times, the construction of the store succeeds, its index holds the \<open>n\<close> offsets of
  the marker (the marker cannot overlap itself, so the chunked scan finds every
  occurrence), and the count \<open>__len__\<close> is \<open>n - 1\<close>, not \<open>n\<close>.
\<close>

theorem C1_count_is_occurrences_minus_one:
  assumes "fs name = Some content" and "occurrences marker content \<noteq> []"
  shows "\<exists>self. Collision_init fs name = Some (Inr self) \<and>
                ion_index self = occurrences marker content \<and>
                Collision_len self = int (length (occurrences marker content)) - 1 \<and>
                0 \<le> Collision_len self"
proof -
  let ?self = "\<lparr>filename = name, ion_index = occurrences marker content\<rparr>"
  from assms(2) have "0 < length (occurrences marker content)" by simp
  then have "0 \<le> Collision_len ?self" by (simp add: Collision_len_def)
  with Collision_init_marker[where fs = fs and name = name, OF assms(1)]
  show ?thesis by (simp add: Collision_len_def)
qed

text \<open>
  The statement at the file that consists of the marker alone.
\<close>

theorem C1_witness:
  "occurrences marker marker \<noteq> [] \<and>
   (\<exists>self. Collision_init (one_file ''f'' marker) ''f'' = Some (Inr self) \<and>
           ion_index self = occurrences marker marker \<and>
           Collision_len self = int (length (occurrences marker marker)) - 1 \<and>
           0 \<le> Collision_len self)"
proof -
  have ne: "occurrences marker marker \<noteq> []" by (simp add: occ_marker_marker)
  with C1_count_is_occurrences_minus_one[where fs = "one_file ''f'' marker" and name = "''f''",
      OF one_file_same ne]
  show ?thesis by blast
qed

text \<open>
  Claim C1 as stated fails: in the file that consists of the marker, the marker occurs
  once and the count is 0; in the empty file it occurs zero times and \<open>__len__\<close>
  computes \<open>-1\<close>.
\<close>

theorem C1_counterexample:
  "length (occurrences marker marker) = 1 \<and>
   map_option (map_sum id Collision_len) (Collision_init (one_file ''f'' marker) ''f'') = Some (Inr 0) \<and>
   length (occurrences marker []) = 0 \<and>
   map_option (map_sum id Collision_len) (Collision_init (one_file ''f'' []) ''f'') = Some (Inr (- 1))"
  by (simp add: Collision_init_marker[OF one_file_same]
        occ_marker_marker occ_marker_empty Collision_len_def)

text \<open>
  Claim C3, as amended. For every file, every start offset and every plain marker (a
  byte string without regular expression metacharacter), the offsets that
  \<open>buffered_findall\<close> returns are strictly increasing, so that none appears twice;
  and it does return when the marker is not longer than the window. A match of a plain
  marker is as long as the pattern text and never lies inside the overlap of two
  windows, which is one byte shorter.
\<close>

theorem C3_plain_marker_offsets_increase:
  assumes "fs name = Some file" and "plain string"
  shows "(length string \<le> BUFFERSIZE \<longrightarrow>
            (\<exists>positions. buffered_findall fs name string start = Some (Inr positions))) \<and>
         (\<forall>positions. buffered_findall fs name string start = Some (Inr positions) \<longrightarrow>
            sorted_wrt (<) positions \<and> distinct positions)"
proof (intro conjI impI allI)
  assume "length string \<le> BUFFERSIZE"
  from scan_loop_returns[OF this, where p = "start_cursor start" and acc = "[]"] assms(1)
  show "\<exists>positions. buffered_findall fs name string start = Some (Inr positions)"
    by (auto simp: buffered_findall_def)
next
  fix positions
  assume "buffered_findall fs name string start = Some (Inr positions)"
  with assms(1) have "scan_loop file string BUFFERSIZE (start_cursor start, []) = Some positions"
    by (auto simp: buffered_findall_def)
  from scan_loop_sorted[OF this assms(2)] show s: "sorted_wrt (<) positions" .
  then show "distinct positions" by (simp add: strict_sorted_iff)
qed

text \<open>
  The statement at a file in which the marker straddles the end of the first window: it
  is found once, in the second window.
\<close>

theorem C3_witness:
  "buffered_findall (one_file ''f'' straddle_file) ''f'' marker 0 = Some (Inr [4090, 4105]) \<and>
   sorted_wrt (<) [4090, 4105 :: nat] \<and> distinct [4090, 4105 :: nat]"
proof -
  have b: "buffered_findall (one_file ''f'' straddle_file) ''f'' marker 0 = Some (Inr [4090, 4105])"
    by (simp add: buffered_findall_def one_file_same start_cursor_def straddle_scan)
  from C3_plain_marker_offsets_increase[where fs = "one_file ''f'' straddle_file" and name = "''f''"
         and start = 0, OF one_file_same marker_plain] b
  show ?thesis by blast
qed

text \<open>
  Claim C3 as stated fails for a pattern whose matches are shorter than its text: for
  the escaped dot \<open>\\.\<close> the overlap is one byte, the dot at offset 4095 lies in
  the first window and in the overlap, and it is reported by both windows.
\<close>

theorem C3_counterexample:
  "simple_pattern dot_pattern \<and> pattern_literal dot_pattern = ''.'' \<and>
   buffered_findall (one_file ''f'' dot_file) ''f'' dot_pattern 0 = Some (Inr [4095, 4095]) \<and>
   \<not> sorted_wrt (<) [4095, 4095 :: nat]"
proof -
  have "simple_pattern dot_pattern" "pattern_literal dot_pattern = ''.''"
    by (simp_all add: simple_pattern_def pattern_literal_def dot_pattern_def is_alnum_def)
  moreover have "buffered_findall (one_file ''f'' dot_file) ''f'' dot_pattern 0 = Some (Inr [4095, 4095])"
    by (simp add: buffered_findall_def one_file_same start_cursor_def dot_scan)
  ultimately show ?thesis by simp
qed

text \<open>
  Claim C4, as amended. For a plain marker longer than the window (4096 bytes) the
  locator finds nothing: whenever it returns, it returns no offset, and when the file
  has at least \<open>len(marker) - 1 + 4096\<close> bytes and the start offset lies before the
  end of the file, the cursor never reaches the end of the file and the loop does not
  return.
\<close>

theorem C4_long_marker_never_located:
  assumes "fs name = Some file" and "plain string" and "BUFFERSIZE < length string"
  shows "(\<forall>positions. buffered_findall fs name string start = Some (Inr positions) \<longrightarrow>
            positions = []) \<and>
         (length string - 1 + BUFFERSIZE \<le> length file \<and> start < int (length file) \<longrightarrow>
            buffered_findall fs name string start = None)"
proof (intro conjI impI allI)
  fix positions
  assume "buffered_findall fs name string start = Some (Inr positions)"
  with assms(1) have "scan_loop file string BUFFERSIZE (start_cursor start, []) = Some positions"
    by (auto simp: buffered_findall_def)
  from scan_loop_long[OF this assms(3) assms(2)] show "positions = []" .
next
  assume a: "length string - 1 + BUFFERSIZE \<le> length file \<and> start < int (length file)"
  have bs: "0 < BUFFERSIZE" by (simp add: BUFFERSIZE_def)
  with a have "start_cursor start < length file" by (auto simp: start_cursor_def)
  with a have "scan_loop file string BUFFERSIZE (start_cursor start, []) = None"
    by (intro scan_loop_forever[OF assms(3) bs]) simp_all
  with assms(1) show "buffered_findall fs name string start = None"
    by (simp add: buffered_findall_def)
qed

text \<open>
  The statement at a pattern of 4097 bytes and a file of 8192 bytes.
\<close>

theorem C4_witness:
  "length long_pattern - 1 + BUFFERSIZE \<le> length long_file \<and> (0::int) < int (length long_file) \<and>
   buffered_findall (one_file ''f'' long_file) ''f'' long_pattern 0 = None"
proof -
  have pl: "plain long_pattern"
    by (simp add: plain_def long_pattern_def list_all_iff is_meta_def)
  have len: "BUFFERSIZE < length long_pattern"
    by (simp add: BUFFERSIZE_def long_pattern_def)
  have h: "length long_pattern - 1 + BUFFERSIZE \<le> length long_file \<and> (0::int) < int (length long_file)"
    by (simp add: BUFFERSIZE_def long_pattern_def long_file_def)
  with C4_long_marker_never_located[where fs = "one_file ''f'' long_file" and name = "''f''"
         and start = 0, OF one_file_same pl len]
  show ?thesis by blast
qed

text \<open>
  Claim C4 as stated fails: the pattern of 4097 bytes occurs at offset 0 of the file,
  and \<open>buffered_findall\<close> does not return.
\<close>

theorem C4_counterexample:
  "plain long_pattern \<and> BUFFERSIZE < length long_pattern \<and> occurs_at long_pattern long_file 0 \<and>
   buffered_findall (one_file ''f'' long_file) ''f'' long_pattern 0 = None"
proof -
  have pl: "plain long_pattern"
    by (simp add: plain_def long_pattern_def list_all_iff is_meta_def)
  have len: "BUFFERSIZE < length long_pattern" "0 < BUFFERSIZE"
    "length long_pattern - 1 + BUFFERSIZE \<le> length long_file" "0 < length long_file"
    by (simp_all add: BUFFERSIZE_def long_pattern_def long_file_def)
  have "long_file = long_pattern @ replicate 4095 (CHR ''a'')"
    by (simp add: long_file_def long_pattern_def replicate_add[symmetric])
  then have "prefix long_pattern long_file" by (rule prefixI)
  then have occ: "occurs_at long_pattern long_file 0" by (simp add: occurs_at_def)
  have "scan_loop long_file long_pattern BUFFERSIZE (0, []) = None"
    by (rule scan_loop_forever[OF len])
  then have "buffered_findall (one_file ''f'' long_file) ''f'' long_pattern 0 = None"
    by (simp add: buffered_findall_def one_file_same start_cursor_def)
  with pl len(1) occ show ?thesis by simp
qed

text \<open>
  Claim C5. For every existing input file the scan that builds the index when a
  \<open>Collision\<close> is constructed (\<open>buffered_findall\<close> with the marker of 15 bytes)
  returns: the loop reaches the end of the file after at most
  \<open>length content div 4082 + 2\<close> passes, each of which reads at most 4096 bytes, and the
  construction yields the store with the positions found.
\<close>

theorem C5_index_scan_terminates:
  assumes "fs name = Some content"
  shows "\<exists>n positions. n \<le> length content div 4082 + 2 \<and>
           scan_passes n content marker BUFFERSIZE (0, []) = Some positions \<and>
           buffered_findall fs name marker 0 = Some (Inr positions) \<and>
           Collision_init fs name = Some (Inr \<lparr>filename = name, ion_index = positions\<rparr>)"
proof -
  have fit: "length marker \<le> BUFFERSIZE" by (simp add: marker_def BUFFERSIZE_def)
  from scan_loop_returns[OF fit, where p = 0 and acc = "[]"] obtain n r
    where n: "n \<le> (length content - 0) div (BUFFERSIZE + 1 - length marker) + 2"
      and p: "scan_passes n content marker BUFFERSIZE (0, []) = Some r"
      and l: "scan_loop content marker BUFFERSIZE (0, []) = Some r" by blast
  from n have "n \<le> length content div 4082 + 2" by (simp add: marker_def BUFFERSIZE_def)
  moreover from l assms have b: "buffered_findall fs name marker 0 = Some (Inr r)"
    by (simp add: buffered_findall_def start_cursor_def)
  moreover from b assms have "Collision_init fs name = Some (Inr \<lparr>filename = name, ion_index = r\<rparr>)"
    by (simp add: Collision_init_def)
  ultimately show ?thesis using p by blast
qed

text \<open>The statement at a file that holds the marker twice.\<close>

theorem C5_witness:
  "\<exists>n positions. n \<le> length (marker @ marker) div 4082 + 2 \<and>
     scan_passes n (marker @ marker) marker BUFFERSIZE (0, []) = Some positions \<and>
     buffered_findall (one_file ''f'' (marker @ marker)) ''f'' marker 0 = Some (Inr positions) \<and>
     Collision_init (one_file ''f'' (marker @ marker)) ''f'' =
       Some (Inr \<lparr>filename = ''f'', ion_index = positions\<rparr>)"
  using C5_index_scan_terminates[OF one_file_same] .

text \<open>
  Claim C6, as amended. The construction of the store succeeds for every existing file,
  also when no line of the file is the header terminator: the header read then consumes
  all the lines, the index is built from the whole file, and no \<open>FormatError\<close> is
  raised.
\<close>

theorem C6_construction_succeeds_without_terminator:
  assumes "fs name = Some content" and "[CHR '' '', CHR 0x0A] \<notin> set (text_lines content)"
  shows "read_header (text_lines content) = text_lines content \<and>
         Collision_init fs name =
           Some (Inr \<lparr>filename = name, ion_index = occurrences marker content\<rparr>) \<and>
         Collision_init fs name \<noteq> Some (Inl FormatError)"
  using read_header_all[OF assms(2)] Collision_init_marker[where fs = fs and name = name, OF assms(1)]
  by simp

text \<open>
  The statement at a file of three bytes.
\<close>

theorem C6_witness:
  "[CHR '' '', CHR 0x0A] \<notin> set (text_lines ''abc'') \<and>
   read_header (text_lines ''abc'') = text_lines ''abc'' \<and>
   Collision_init (one_file ''f'' ''abc'') ''f'' =
     Some (Inr \<lparr>filename = ''f'', ion_index = occurrences marker ''abc''\<rparr>) \<and>
   Collision_init (one_file ''f'' ''abc'') ''f'' \<noteq> Some (Inl FormatError)"
proof -
  have h: "[CHR '' '', CHR 0x0A] \<notin> set (text_lines ''abc'')" by (simp add: text_lines_def)
  with C6_construction_succeeds_without_terminator[where fs = "one_file ''f'' ''abc''"
      and name = "''f''", OF one_file_same h]
  show ?thesis by blast
qed

text \<open>
  Claim C6 as stated fails: the file \<open>abc\<close> has no header terminator and the
  construction returns a store.
\<close>

theorem C6_counterexample:
  "[CHR '' '', CHR 0x0A] \<notin> set (text_lines ''abc'') \<and>
   Collision_init (one_file ''f'' ''abc'') ''f'' = Some (Inr \<lparr>filename = ''f'', ion_index = []\<rparr>)"
proof -
  have "occurrences marker ''abc'' = []" by code_simp
  with Collision_init_marker[where fs = "one_file ''f'' ''abc''" and name = "''f''", OF one_file_same]
  show ?thesis by (simp add: text_lines_def)
qed

text \<open>
  Claim C10, as amended. When \<open>buffered_findall\<close> is called with a plain marker and a
  start offset \<open>s\<close> that is at least \<open>len(marker) - 1\<close> and smaller than the size
  of the file, the first window starts at \<open>s - (len(marker) - 1)\<close>; for a marker
  that fits in the window and whose occurrences do not overlap, the result is the list
  of the occurrences from that offset on, so it holds every occurrence between
  \<open>s - len(marker) + 1\<close> and \<open>s\<close>: the start offset is no lower bound.
\<close>

theorem C10_window_starts_before_start:
  assumes "fs name = Some content" and "plain string" and "string \<noteq> []"
      and "length string \<le> BUFFERSIZE" and "no_overlap string content"
      and "overlap_of string \<le> start" and "start < int (length content)"
  shows "int (seek_back content string (start_cursor start)) = start - overlap_of string \<and>
         buffered_findall fs name string start =
           Some (Inr (filter (\<lambda>i. start - overlap_of string \<le> int i) (occurrences string content)))"
proof -
  have ov: "0 \<le> overlap_of string" using assms(3) by (cases string) (simp_all add: overlap_of_def)
  with assms(6) have s0: "0 \<le> start" by simp
  then have sc: "int (start_cursor start) = start" by (simp add: start_cursor_def)
  with assms(7) have lt: "start_cursor start < length content" by simp
  from sc assms(6) lt
  have sb: "int (seek_back content string (start_cursor start)) = start - overlap_of string"
    by (simp add: seek_back_def)
  have sp: "\<forall>a b. occurs_at string content a \<longrightarrow> occurs_at string content b \<longrightarrow> a < b
              \<longrightarrow> a + length string \<le> b"
    using assms(5) by (simp add: no_overlap_iff[OF assms(3)])
  have "scan_loop content string BUFFERSIZE (start_cursor start, []) =
          Some (filter (\<lambda>i. seek_back content string (start_cursor start) \<le> i)
                  (occurrences string content))"
    by (rule scan_loop_exact[OF assms(2,3,4) sp])
  moreover have "(seek_back content string (start_cursor start) \<le> i) =
                 (start - overlap_of string \<le> int i)" for i
    using sb by linarith
  ultimately show ?thesis using sb assms(1) by (simp add: buffered_findall_def)
qed

text \<open>
  The statement at a file with the marker at offset 2 and the start offset 16: the
  offset 2 is returned.
\<close>

theorem C10_witness:
  "int (seek_back offset_file marker (start_cursor 16)) = 16 - overlap_of marker \<and>
   buffered_findall (one_file ''f'' offset_file) ''f'' marker 16 = Some (Inr [2]) \<and>
   (2 :: int) < 16"
proof -
  have "overlap_of marker = 14" by (simp add: overlap_of_def marker_def)
  then have "filter (\<lambda>i. 16 - overlap_of marker \<le> int i) (occurrences marker offset_file) = [2]"
    by (simp add: occ_offset_file)
  with C10_window_starts_before_start[where fs = "one_file ''f'' offset_file"
      and name = "''f''" and string = marker and start = 16,
      OF one_file_same marker_plain _ _ marker_no_overlap]
  show ?thesis by (simp add: marker_def BUFFERSIZE_def overlap_of_def offset_file_def)
qed

text \<open>
  Claim C10 as stated fails at a start offset beyond the end of the file: the test
  \<open>f.tell() < filesize\<close> leaves the cursor at 20 in a file of 15 bytes, where the
  claim puts it at 6.
\<close>

theorem C10_counterexample:
  "overlap_of marker \<le> 20 \<and> seek_back marker marker (start_cursor 20) = 20 \<and>
   nat (20 - overlap_of marker) = 6"
  by (simp add: overlap_of_def seek_back_def start_cursor_def marker_def)

end
